theory Spec2Isabelle
  imports Main "HOL-Library.Multiset"
begin

section \<open>Batching of the CIFAR100 input pipeline (cifar100_input.py)\<close>

subsection \<open>Values of the Python program\<close>

text \<open>
  The exceptions the batching code can raise.  \<open>Dataset.get_next_batch\<close> raises
  \<open>ValueError\<close> with two different messages; indexing a numpy array with an index that
  is out of range, or a tuple beyond its length, raises \<open>IndexError\<close>.
\<close>

datatype error = ValueError string | IndexError

abbreviation InvalidArgument :: error where
  "InvalidArgument \<equiv> ValueError ''Batch size can be at most the dataset size''"

abbreviation ExhaustedError :: error where
  "ExhaustedError \<equiv> ValueError ''Pass through the dataset is complete.''"

text \<open>
  \<open>Dataset.get_next_batch\<close> returns a pair \<open>(batch_xs, batch_ys)\<close> when
  \<open>multiple_passes\<close> is false and a triple \<open>(batch_xs, batch_ys, epoch_done)\<close> otherwise.
\<close>

datatype ('x, 'y) batch =
    Tuple2 "'x list" "'y list"
  | Tuple3 "'x list" "'y list" bool

fun batch_xs :: "('x, 'y) batch \<Rightarrow> 'x list" where
  "batch_xs (Tuple2 bx bl) = bx"
| "batch_xs (Tuple3 bx bl d) = bx"

fun batch_ys :: "('x, 'y) batch \<Rightarrow> 'y list" where
  "batch_ys (Tuple2 bx bl) = bl"
| "batch_ys (Tuple3 bx bl d) = bl"

text \<open>Element 2 of the returned tuple: absent in a pair (Python raises \<open>IndexError\<close>).\<close>

fun tuple_index2 :: "('x, 'y) batch \<Rightarrow> error + bool" where
  "tuple_index2 (Tuple2 bx bl) = Inl IndexError"
| "tuple_index2 (Tuple3 bx bl d) = Inr d"

text \<open>
  A Python slice \<open>A[lo : hi]\<close> of a sequence, with integer bounds: a negative bound counts
  from the end, and both bounds are clipped to the sequence.
\<close>

definition slice_bound :: "int \<Rightarrow> int \<Rightarrow> nat" where
  "slice_bound len i = (if i < 0 then nat (max 0 (len + i)) else nat (min len i))"

definition py_slice :: "'a list \<Rightarrow> int \<Rightarrow> int \<Rightarrow> 'a list" where
  "py_slice A lo hi =
     (let len = int (length A); a = slice_bound len lo; b = slice_bound len hi
      in take (b - a) (drop a A))"

text \<open>
  Indexing a numpy array along its first axis with an array of indices, \<open>A[idx, ...]\<close>:
  one row per index, \<open>IndexError\<close> when an index is out of bounds.  The indices come from
  \<open>np.random.permutation\<close> and are never negative.
\<close>

definition np_take :: "'a list \<Rightarrow> nat list \<Rightarrow> error + 'a list" where
  "np_take A idx =
     (if list_all (\<lambda>i. i < length A) idx then Inr (map (nth A) idx) else Inl IndexError)"

subsection \<open>class Dataset\<close>

record ('x, 'y) Dataset =
  xs :: "'x list"
  n :: int
  ys :: "'y list"
  batch_start :: int
  cur_order :: "nat list"

text \<open>
  \<open>Dataset.__init__(xs, ys)\<close>.  The argument \<open>p\<close> is the array that
  \<open>np.random.permutation(self.n)\<close> returns.
\<close>

definition Dataset_init :: "'x list \<Rightarrow> 'y list \<Rightarrow> nat list \<Rightarrow> ('x, 'y) Dataset" where
  "Dataset_init X Y p =
     \<lparr>xs = X, n = int (length X), ys = Y, batch_start = 0, cur_order = p\<rparr>"

text \<open>
  \<open>Dataset.get_next_batch(batch_size, multiple_passes, reshuffle_after_pass)\<close>.
  The result is what the call returns or raises, together with the object after the call.
  The argument \<open>p\<close> is the array that \<open>np.random.permutation(self.n)\<close> returns if the
  call reaches it.
\<close>

definition Dataset_get_next_batch ::
  "('x, 'y) Dataset \<Rightarrow> int \<Rightarrow> bool \<Rightarrow> bool \<Rightarrow> nat list
     \<Rightarrow> (error + ('x, 'y) batch) \<times> ('x, 'y) Dataset" where
  "Dataset_get_next_batch s batch_size multiple_passes reshuffle_after_pass p =
     (if n s < batch_size then (Inl InvalidArgument, s)
      else if \<not> multiple_passes then
        (let actual_batch_size = min batch_size (n s - batch_start s) in
         if actual_batch_size \<le> 0 then (Inl ExhaustedError, s)
         else
           (let batch_end = batch_start s + actual_batch_size;
                idx = py_slice (cur_order s) (batch_start s) batch_end
            in case np_take (xs s) idx of
                 Inl e \<Rightarrow> (Inl e, s)
               | Inr bx \<Rightarrow>
                   (case np_take (ys s) idx of
                      Inl e \<Rightarrow> (Inl e, s)
                    | Inr bl \<Rightarrow>
                        (Inr (Tuple2 bx bl),
                         s\<lparr>batch_start := batch_start s + actual_batch_size\<rparr>))))
      else
        (let actual_batch_size = min batch_size (n s - batch_start s);
             epoch_done = (actual_batch_size < batch_size);
             s1 = (if epoch_done
                   then (if reshuffle_after_pass then s\<lparr>cur_order := p\<rparr> else s)
                          \<lparr>batch_start := 0\<rparr>
                   else s);
             batch_end = batch_start s1 + batch_size;
             idx = py_slice (cur_order s1) (batch_start s1) batch_end
         in case np_take (xs s1) idx of
              Inl e \<Rightarrow> (Inl e, s1)
            | Inr bx \<Rightarrow>
                (case np_take (ys s1) idx of
                   Inl e \<Rightarrow> (Inl e, s1)
                 | Inr bl \<Rightarrow>
                     (Inr (Tuple3 bx bl epoch_done),
                      s1\<lparr>batch_start := batch_start s1 + actual_batch_size\<rparr>))))"

subsection \<open>class AugmentedDataset\<close>

text \<open>
  The wrapper keeps a reference to the raw \<open>Dataset\<close> and, when \<open>to_cache\<close> is set, the
  augmented images, their number and the raw labels (\<open>None\<close> otherwise): its fields \<open>xs\<close>,
  \<open>n\<close> and \<open>ys\<close>, here \<open>cached_xs\<close>, \<open>cached_n\<close> and \<open>cached_ys\<close> to keep them apart from
  the fields of \<open>Dataset\<close>.  The augmentation
  graph and the session are outside the file: \<open>sess.run(self.augmented, feed_dict =
  {self.x_input_placeholder: X})\<close> is the function \<open>run\<close>, which maps the state \<open>g\<close> of the
  session (its random generator) and the images fed to the images computed and the next
  state of the session.
\<close>

record ('x, 'y) AugmentedDataset =
  raw_datasubset :: "('x, 'y) Dataset"
  cached_xs :: "'x list option"
  cached_n :: "int option"
  cached_ys :: "'y list option"

definition AugmentedDataset_init ::
  "('g \<Rightarrow> 'x list \<Rightarrow> 'x list \<times> 'g) \<Rightarrow> 'g \<Rightarrow> ('x, 'y) Dataset \<Rightarrow> bool
     \<Rightarrow> ('x, 'y) AugmentedDataset \<times> 'g" where
  "AugmentedDataset_init run g raw to_cache =
     (if to_cache then
        (case run g (xs raw) of
           (out, g') \<Rightarrow>
             (\<lparr>raw_datasubset = raw, cached_xs = Some out,
               cached_n = Some (int (length out)), cached_ys = Some (ys raw)\<rparr>, g'))
      else
        (\<lparr>raw_datasubset = raw, cached_xs = None, cached_n = None, cached_ys = None\<rparr>, g))"

definition AugmentedDataset_get_next_batch ::
  "('g \<Rightarrow> 'x list \<Rightarrow> 'x list \<times> 'g) \<Rightarrow> 'g \<Rightarrow> ('x, 'y) AugmentedDataset \<Rightarrow> int \<Rightarrow> bool \<Rightarrow> bool
     \<Rightarrow> nat list \<Rightarrow> (error + ('x, 'y) batch) \<times> ('x, 'y) AugmentedDataset \<times> 'g" where
  "AugmentedDataset_get_next_batch run g a batch_size multiple_passes reshuffle_after_pass p =
     (case Dataset_get_next_batch (raw_datasubset a) batch_size multiple_passes
             reshuffle_after_pass p of
        (Inl e, raw') \<Rightarrow> (Inl e, a\<lparr>raw_datasubset := raw'\<rparr>, g)
      | (Inr raw_batch, raw') \<Rightarrow>
          (case tuple_index2 raw_batch of
             Inl e \<Rightarrow> (Inl e, a\<lparr>raw_datasubset := raw'\<rparr>, g)
           | Inr epoch_done \<Rightarrow>
               (case run g (batch_xs raw_batch) of
                  (out, g') \<Rightarrow>
                    (Inr (Tuple3 out (batch_ys raw_batch) epoch_done),
                     a\<lparr>raw_datasubset := raw'\<rparr>, g'))))"

subsection \<open>Invariants\<close>

text \<open>\<open>p\<close> is a permutation of the indices \<open>0, ..., m - 1\<close>.\<close>

definition perm_of :: "int \<Rightarrow> nat list \<Rightarrow> bool" where
  "perm_of m p = (0 \<le> m \<and> distinct p \<and> set p = {0..<nat m})"

text \<open>The sampler invariant of the specification.\<close>

definition sampler_inv :: "('x, 'y) Dataset \<Rightarrow> bool" where
  "sampler_inv s = (perm_of (n s) (cur_order s) \<and> 0 \<le> batch_start s \<and> batch_start s \<le> n s)"

text \<open>The example set is well formed: as many labels as images, and \<open>n\<close> counts them.\<close>

definition example_set_ok :: "('x, 'y) Dataset \<Rightarrow> bool" where
  "example_set_ok s = (n s = int (length (xs s)) \<and> length (ys s) = length (xs s))"

subsection \<open>One bounded pass\<close>

text \<open>
  A caller that consumes one pass in bounded mode: it calls \<open>get_next_batch(batch_size)\<close>
  (both flags at their defaults) until the call raises, and collects the batches.  The
  result is the batches in the order returned, the exception that ended the pass and the
  object at that point.
\<close>

function bounded_pass ::
  "('x, 'y) Dataset \<Rightarrow> int \<Rightarrow> ('x, 'y) batch list \<times> error \<times> ('x, 'y) Dataset" where
  "bounded_pass s batch_size =
     (case Dataset_get_next_batch s batch_size False True [] of
        (Inl e, s') \<Rightarrow> ([], e, s')
      | (Inr b, s') \<Rightarrow>
          (case bounded_pass s' batch_size of (bl, e, s'') \<Rightarrow> (b # bl, e, s'')))"
  by pat_completeness auto
termination
proof (relation "measure (\<lambda>(s, batch_size). nat (n s - batch_start s))")
  show "wf (measure (\<lambda>(s :: ('x, 'y) Dataset, batch_size :: int). nat (n s - batch_start s)))"
    by simp
next
  fix s :: "('x, 'y) Dataset" and batch_size :: int and x s' b
  assume "(x, s') = Dataset_get_next_batch s batch_size False True []"
    and "x = Inr b"
  then show "((s', batch_size), (s, batch_size))
               \<in> measure (\<lambda>(s, batch_size). nat (n s - batch_start s))"
    by (auto simp: Dataset_get_next_batch_def Let_def split: if_splits sum.splits)
qed

declare bounded_pass.simps [simp del]

subsection \<open>Sampling a cached wrapper, as the specification describes it\<close>

text \<open>
  The specification's reading of a cached wrapper: the set computed at construction is
  the source of batches, that is, a batch is what plain \<open>Dataset\<close> sampling returns over
  the stored images and labels, with the order and the position of the sampler.  A
  wrapper built without cache has no such set.
\<close>

definition cached_set_sampling ::
  "('x, 'y) AugmentedDataset \<Rightarrow> int \<Rightarrow> bool \<Rightarrow> bool \<Rightarrow> nat list
     \<Rightarrow> (error + ('x, 'y) batch) option" where
  "cached_set_sampling a batch_size multiple_passes reshuffle_after_pass p =
     (case (cached_xs a, cached_n a, cached_ys a) of
        (Some X, Some m, Some Y) \<Rightarrow>
          Some (fst (Dataset_get_next_batch
                  \<lparr>xs = X, n = m, ys = Y,
                   batch_start = batch_start (raw_datasubset a),
                   cur_order = cur_order (raw_datasubset a)\<rparr>
                  batch_size multiple_passes reshuffle_after_pass p))
      | _ \<Rightarrow> None)"

subsection \<open>Concrete data\<close>

text \<open>Three examples, freshly constructed with the order \<open>0, 2, 1\<close>.\<close>

definition three_examples :: "(nat, nat) Dataset" where
  "three_examples = Dataset_init [10, 11, 12] [0, 1, 2] [0, 2, 1]"

text \<open>The same sampler after one batch of two examples has been drawn.\<close>

definition three_examples_at2 :: "(nat, nat) Dataset" where
  "three_examples_at2 = three_examples\<lparr>batch_start := 2\<rparr>"

text \<open>Ten examples, freshly constructed.\<close>

definition ten_examples :: "(nat, nat) Dataset" where
  "ten_examples =
     Dataset_init [100, 101, 102, 103, 104, 105, 106, 107, 108, 109]
       [0, 1, 2, 3, 4, 5, 6, 7, 8, 9] [3, 1, 4, 0, 5, 9, 2, 6, 8, 7]"

text \<open>The same sampler after two batches of four examples have been drawn.\<close>

definition ten_examples_at8 :: "(nat, nat) Dataset" where
  "ten_examples_at8 = ten_examples\<lparr>batch_start := 8\<rparr>"

text \<open>
  A session whose augmentation depends on its state, as a random flip depends on the
  generator: the \<open>g\<close>-th run adds \<open>g\<close> to every image.
\<close>

definition counting_run :: "nat \<Rightarrow> nat list \<Rightarrow> nat list \<times> nat" where
  "counting_run g X = (map (\<lambda>x. x + g) X, Suc g)"

text \<open>A session that applies the same function \<open>T\<close> to every image at every run.\<close>

definition pure_run :: "('x \<Rightarrow> 'x) \<Rightarrow> 'g \<Rightarrow> 'x list \<Rightarrow> 'x list \<times> 'g" where
  "pure_run T g X = (map T X, g)"

text \<open>
  The wrapper built with \<open>to_cache\<close> over the three fresh examples, by the first run of the
  counting session.
\<close>

definition cached_three :: "(nat, nat) AugmentedDataset" where
  "cached_three = fst (AugmentedDataset_init counting_run 1 three_examples True)"

section \<open>Properties\<close>

subsection \<open>Slices and index arrays\<close>

lemma py_slice_nonneg:
  "0 \<le> lo \<Longrightarrow> 0 \<le> hi \<Longrightarrow> py_slice A lo hi = take (nat hi - nat lo) (drop (nat lo) A)"
  by (auto simp: py_slice_def slice_bound_def Let_def min_def)

lemma perm_of_length: "perm_of m p \<Longrightarrow> int (length p) = m"
  unfolding perm_of_def using distinct_card[of p] by auto

lemma perm_of_bound: "perm_of m p \<Longrightarrow> i \<in> set p \<Longrightarrow> int i < m"
  unfolding perm_of_def by auto

lemma np_take_ok:
  "\<forall>i\<in>set idx. i < length A \<Longrightarrow> np_take A idx = Inr (map (nth A) idx)"
  by (simp add: np_take_def list_all_iff)

lemma np_take_window:
  assumes "perm_of m p" and "m = int (length A)"
  shows "np_take A (take k (drop j p)) = Inr (map (nth A) (take k (drop j p)))"
proof (rule np_take_ok, rule ballI)
  fix i assume "i \<in> set (take k (drop j p))"
  then have "i \<in> set p"
    by (meson in_set_dropD in_set_takeD)
  with assms show "i < length A"
    using perm_of_bound by fastforce
qed

lemma perm_of_mset:
  assumes "perm_of (int (length A)) p"
  shows "mset (map (nth A) p) = mset A"
proof -
  have "distinct p" and "set p = set [0..<length A]"
    using assms by (simp_all add: perm_of_def)
  then have "mset p = mset [0..<length A]"
    by (meson distinct_upt set_eq_iff_mset_eq_distinct)
  then have "mset (map (nth A) p) = mset (map (nth A) [0..<length A])"
    by (simp only: mset_map)
  then show ?thesis by (simp only: map_nth)
qed

subsection \<open>One call, when it succeeds\<close>

lemma bounded_step:
  assumes ok: "example_set_ok s" and inv: "sampler_inv s"
    and more: "batch_start s < n s" and pos: "1 \<le> batch_size" and le: "batch_size \<le> n s"
  defines "k \<equiv> min batch_size (n s - batch_start s)"
  defines "idx \<equiv> take (nat k) (drop (nat (batch_start s)) (cur_order s))"
  shows "Dataset_get_next_batch s batch_size False r p =
           (Inr (Tuple2 (map (nth (xs s)) idx) (map (nth (ys s)) idx)),
            s\<lparr>batch_start := batch_start s + k\<rparr>)"
proof -
  have k: "0 < k" using more pos by (simp add: k_def)
  have st: "0 \<le> batch_start s" using inv by (simp add: sampler_inv_def)
  have sl: "py_slice (cur_order s) (batch_start s) (batch_start s + k) = idx"
    using k st by (simp add: py_slice_nonneg idx_def nat_add_distrib)
  have pm: "perm_of (n s) (cur_order s)" using inv by (simp add: sampler_inv_def)
  have tx: "np_take (xs s) idx = Inr (map (nth (xs s)) idx)"
    unfolding idx_def using pm ok by (intro np_take_window) (auto simp: example_set_ok_def)
  have ty: "np_take (ys s) idx = Inr (map (nth (ys s)) idx)"
    unfolding idx_def using pm ok by (intro np_take_window) (auto simp: example_set_ok_def)
  show ?thesis
    using le k sl tx ty by (simp add: Dataset_get_next_batch_def Let_def k_def[symmetric])
qed

lemma unbounded_step:
  fixes r :: bool
  assumes ok: "example_set_ok s" and inv: "sampler_inv s"
    and pp: "n s - batch_start s < batch_size \<and> r \<longrightarrow> perm_of (n s) p"
    and pos: "0 \<le> batch_size" and le: "batch_size \<le> n s"
  defines "wrap \<equiv> n s - batch_start s < batch_size"
  defines "s1 \<equiv> (if wrap then (if r then s\<lparr>cur_order := p\<rparr> else s)\<lparr>batch_start := 0\<rparr> else s)"
  defines "idx \<equiv> take (nat batch_size) (drop (nat (batch_start s1)) (cur_order s1))"
  shows "Dataset_get_next_batch s batch_size True r p =
           (Inr (Tuple3 (map (nth (xs s)) idx) (map (nth (ys s)) idx) wrap),
            s1\<lparr>batch_start := (if wrap then n s - batch_start s else batch_start s + batch_size)\<rparr>)"
proof -
  have st: "0 \<le> batch_start s" "batch_start s \<le> n s" using inv by (simp_all add: sampler_inv_def)
  have w: "(min batch_size (n s - batch_start s) < batch_size) = wrap"
    by (auto simp: wrap_def)
  have a: "min batch_size (n s - batch_start s) = (if wrap then n s - batch_start s else batch_size)"
    by (auto simp: wrap_def)
  have st1: "0 \<le> batch_start s1" using st by (simp add: s1_def)
  have f1: "xs s1 = xs s" "ys s1 = ys s" "n s1 = n s" by (simp_all add: s1_def)
  have sl: "py_slice (cur_order s1) (batch_start s1) (batch_start s1 + batch_size) = idx"
    using st1 pos by (simp add: py_slice_nonneg idx_def nat_add_distrib)
  have pm: "perm_of (n s) (cur_order s1)"
    using inv pp by (simp add: sampler_inv_def s1_def wrap_def)
  have tx: "np_take (xs s) idx = Inr (map (nth (xs s)) idx)"
    unfolding idx_def using pm ok by (intro np_take_window) (auto simp: example_set_ok_def)
  have ty: "np_take (ys s) idx = Inr (map (nth (ys s)) idx)"
    unfolding idx_def using pm ok by (intro np_take_window) (auto simp: example_set_ok_def)
  have "Dataset_get_next_batch s batch_size True r p =
          (case np_take (xs s1) (py_slice (cur_order s1) (batch_start s1) (batch_start s1 + batch_size)) of
              Inl e \<Rightarrow> (Inl e, s1)
            | Inr bx \<Rightarrow>
                (case np_take (ys s1) (py_slice (cur_order s1) (batch_start s1) (batch_start s1 + batch_size)) of
                   Inl e \<Rightarrow> (Inl e, s1)
                 | Inr bl \<Rightarrow>
                     (Inr (Tuple3 bx bl wrap),
                      s1\<lparr>batch_start := batch_start s1 + min batch_size (n s - batch_start s)\<rparr>)))"
    using le unfolding Dataset_get_next_batch_def Let_def w s1_def by simp
  also have "\<dots> = (Inr (Tuple3 (map (nth (xs s)) idx) (map (nth (ys s)) idx) wrap),
                      s1\<lparr>batch_start := batch_start s1 + min batch_size (n s - batch_start s)\<rparr>)"
    by (simp add: sl f1 tx ty)
  also have "batch_start s1 + min batch_size (n s - batch_start s) =
       (if wrap then n s - batch_start s else batch_start s + batch_size)" 
    unfolding a by (simp add: s1_def)
  finally show ?thesis .
qed

lemma init_ok:
  assumes "length Y = length X" and "perm_of (int (length X)) p0"
  shows "example_set_ok (Dataset_init X Y p0)" and "sampler_inv (Dataset_init X Y p0)"
  using assms by (simp_all add: example_set_ok_def sampler_inv_def Dataset_init_def)

lemma unbounded_no_wrap:
  assumes ok: "example_set_ok s" and inv: "sampler_inv s"
    and pos: "0 \<le> batch_size" and fits: "batch_size \<le> n s - batch_start s"
  shows "snd (Dataset_get_next_batch s batch_size True r p)
           = s\<lparr>batch_start := batch_start s + batch_size\<rparr>"
proof -
  have le: "batch_size \<le> n s"
    using fits inv by (simp add: sampler_inv_def)
  have pp: "n s - batch_start s < batch_size \<and> r \<longrightarrow> perm_of (n s) p"
    using fits by simp
  show ?thesis
    using unbounded_step [OF ok inv pp pos le] fits by simp
qed

lemma unbounded_result_flag:
  assumes "Dataset_get_next_batch s batch_size True r p = (Inr b, s')"
  shows "tuple_index2 b = Inr (min batch_size (n s - batch_start s) < batch_size)"
  using assms
  by (auto simp: Dataset_get_next_batch_def Let_def split: if_splits sum.splits)

subsection \<open>The bounded pass, from any position\<close>

lemma bounded_pass_done:
  assumes "batch_size \<le> n s" and "n s \<le> batch_start s"
  shows "bounded_pass s batch_size = ([], ExhaustedError, s)"
proof -
  have "min batch_size (n s - batch_start s) \<le> 0"
    using assms by simp
  then have "Dataset_get_next_batch s batch_size False True [] = (Inl ExhaustedError, s)"
    using assms by (simp add: Dataset_get_next_batch_def Let_def del: min_le_iff_disj)
  then show ?thesis
    by (subst bounded_pass.simps) simp
qed

lemma bounded_pass_step:
  assumes ok: "example_set_ok s" and inv: "sampler_inv s"
    and more: "batch_start s < n s" and pos: "1 \<le> batch_size" and le: "batch_size \<le> n s"
  defines "k \<equiv> min batch_size (n s - batch_start s)"
  defines "idx \<equiv> take (nat k) (drop (nat (batch_start s)) (cur_order s))"
  shows "bounded_pass s batch_size =
           (case bounded_pass (s\<lparr>batch_start := batch_start s + k\<rparr>) batch_size of
              (bl, e, s'') \<Rightarrow> (Tuple2 (map (nth (xs s)) idx) (map (nth (ys s)) idx) # bl, e, s''))"
  by (subst bounded_pass.simps)
     (simp add: bounded_step[OF ok inv more pos le] k_def idx_def)


lemma mod_last_aux:
  fixes r b :: int
  assumes "b < r" "1 \<le> b"
  shows "(if (r - b) mod b = 0 then b else (r - b) mod b) = (if r mod b = 0 then b else r mod b)"
  by (simp add: mod_diff_right_eq) 

lemma bounded_pass_from:
  assumes "example_set_ok s" and "sampler_inv s" and "1 \<le> batch_size" and "batch_size \<le> n s"
    and "bounded_pass s batch_size = (bl, e, s')"
  shows "e = ExhaustedError \<and> batch_start s' = n s
     \<and> concat (map batch_xs bl) = map (nth (xs s)) (drop (nat (batch_start s)) (cur_order s))
     \<and> concat (map batch_ys bl) = map (nth (ys s)) (drop (nat (batch_start s)) (cur_order s))
     \<and> (\<forall>b \<in> set (butlast bl). int (length (batch_xs b)) = batch_size
                                  \<and> int (length (batch_ys b)) = batch_size)
     \<and> (bl = []) = (batch_start s = n s)
     \<and> (bl \<noteq> [] \<longrightarrow>
           int (length (batch_xs (last bl))) =
             (if (n s - batch_start s) mod batch_size = 0 then batch_size
              else (n s - batch_start s) mod batch_size)
         \<and> length (batch_ys (last bl)) = length (batch_xs (last bl)))"
  using assms
proof (induction s batch_size arbitrary: bl e s' rule: bounded_pass.induct)
  case (1 s batch_size)
  have st: "0 \<le> batch_start s" "batch_start s \<le> n s"
    using "1.prems"(2) by (simp_all add: sampler_inv_def)
  have len: "int (length (cur_order s)) = n s"
    using "1.prems"(2) by (simp add: sampler_inv_def perm_of_length)
  show ?case
  proof (cases "batch_start s < n s")
    case False
    then have eq: "batch_start s = n s" using st by simp
    have "bounded_pass s batch_size = ([], ExhaustedError, s)"
      using "1.prems"(4) eq by (intro bounded_pass_done) simp_all
    with "1.prems"(5) have "bl = []" "e = ExhaustedError" "s' = s" by simp_all
    then show ?thesis using eq len by simp
  next
    case True
    define k where "k = min batch_size (n s - batch_start s)"
    define idx where "idx = take (nat k) (drop (nat (batch_start s)) (cur_order s))"
    define s2 where "s2 = s\<lparr>batch_start := batch_start s + k\<rparr>"
    define b where "b = Tuple2 (map (nth (xs s)) idx) (map (nth (ys s)) idx)"
    have k: "0 < k" "k \<le> batch_size" "batch_start s + k \<le> n s"
      using True "1.prems"(3) by (simp_all add: k_def)
    have call: "Dataset_get_next_batch s batch_size False True [] = (Inr b, s2)"
      using bounded_step[OF "1.prems"(1,2) True "1.prems"(3,4), of True "[]"]
      by (simp add: k_def idx_def s2_def b_def)
    obtain bl2 e2 s3 where rest: "bounded_pass s2 batch_size = (bl2, e2, s3)"
      by (cases "bounded_pass s2 batch_size") auto
    have whole: "bl = b # bl2" "e = e2" "s' = s3"
      using "1.prems"(5) call rest by (subst (asm) bounded_pass.simps, simp)+
    have ok2: "example_set_ok s2" using "1.prems"(1) by (simp add: example_set_ok_def s2_def)
    have inv2: "sampler_inv s2"
      using "1.prems"(2) k st by (simp add: sampler_inv_def s2_def)
    have le2: "batch_size \<le> n s2" using "1.prems"(4) by (simp add: s2_def)
    note IH = "1.IH"[OF call[symmetric] refl ok2 inv2 "1.prems"(3) le2 rest]
    have lidx: "int (length idx) = k"
      using k st len by (simp add: idx_def min_def) linarith
    have split_idx: "idx @ drop (nat (batch_start s2)) (cur_order s)
                       = drop (nat (batch_start s)) (cur_order s)"
    proof -
      have "nat (batch_start s2) = nat k + nat (batch_start s)"
        using k st by (simp add: s2_def nat_add_distrib)
      then have "drop (nat (batch_start s2)) (cur_order s)
                   = drop (nat k) (drop (nat (batch_start s)) (cur_order s))"
        by simp
      then show ?thesis unfolding idx_def by (simp only: append_take_drop_id)
    qed
    have cx: "concat (map batch_xs bl) = map (nth (xs s)) (drop (nat (batch_start s)) (cur_order s))"
      using IH split_idx by (simp add: whole b_def s2_def flip: map_append)
    have cy: "concat (map batch_ys bl) = map (nth (ys s)) (drop (nat (batch_start s)) (cur_order s))"
      using IH split_idx by (simp add: whole b_def s2_def flip: map_append)
    have empty2: "(bl2 = []) = (batch_start s + k = n s)"
      using IH by (simp add: s2_def)
    have sizes: "\<forall>c \<in> set (butlast bl). int (length (batch_xs c)) = batch_size
                                  \<and> int (length (batch_ys c)) = batch_size"
    proof (cases "bl2 = []")
      case True
      then show ?thesis by (simp add: whole)
    next
      case False
      then have "batch_start s + k < n s" using empty2 k by simp
      then have "k = batch_size" by (simp add: k_def)
      then show ?thesis using False IH lidx by (simp add: whole b_def)
    qed
    have lastb: "int (length (batch_xs (last bl))) =
             (if (n s - batch_start s) mod batch_size = 0 then batch_size
              else (n s - batch_start s) mod batch_size)
         \<and> length (batch_ys (last bl)) = length (batch_xs (last bl))"
    proof (cases "bl2 = []")
      case True
      then have r: "n s - batch_start s = k" using empty2 by simp
      have "(if k mod batch_size = 0 then batch_size else k mod batch_size) = k"
        using k by (cases "k = batch_size") simp_all
      then show ?thesis using True lidx r by (auto simp add: whole b_def split: if_splits)
    next
      case False
      then have "batch_start s + k < n s" using empty2 k by simp
      then have kb: "k = batch_size" and lt: "batch_size < n s - batch_start s"
        by (simp_all add: k_def)
      have "n s2 - batch_start s2 = (n s - batch_start s) - batch_size"
        by (simp add: s2_def kb)
      then show ?thesis
        using False IH mod_last_aux[OF lt "1.prems"(3)] by (simp add: whole)
    qed
    show ?thesis
      using IH cx cy sizes lastb True by (simp add: whole s2_def)
  qed
qed

subsection \<open>Facts about the concrete data\<close>

lemma three_examples_at2_ok:
  "example_set_ok three_examples_at2" "sampler_inv three_examples_at2"
  by code_simp+

lemma perm_of_3_rev: "perm_of 3 [2, 1, 0]"
  by code_simp

subsection \<open>The size check\<close>

text \<open>
  C8.  In both modes and in every state, the call fails with the error of the size check
  exactly when \<open>batch_size\<close> exceeds \<open>n\<close>; the check comes first, so that the call then
  returns this error whatever the rest of the state is, and leaves the object as it was.
\<close>

theorem size_check_iff:
  "(fst (Dataset_get_next_batch s batch_size multiple_passes reshuffle_after_pass p)
      = Inl InvalidArgument) = (n s < batch_size)
   \<and> (n s < batch_size \<longrightarrow>
        Dataset_get_next_batch s batch_size multiple_passes reshuffle_after_pass p
          = (Inl InvalidArgument, s))"
  by (auto simp: Dataset_get_next_batch_def Let_def np_take_def split: sum.splits)

theorem size_check_iff_witness:
  "(fst (Dataset_get_next_batch three_examples 4 True True [2, 1, 0]) = Inl InvalidArgument)
     = (n three_examples < 4)
   \<and> n three_examples < 4
   \<and> Dataset_get_next_batch three_examples 4 True True [2, 1, 0]
       = (Inl InvalidArgument, three_examples)"
  using size_check_iff [of three_examples 4 True True "[2, 1, 0]"]
  by (simp add: three_examples_def Dataset_init_def)

subsection \<open>The flag of the epoch\<close>

text \<open>
  C6.  With \<open>multiple_passes\<close> set, a call that returns a batch returns a triple whose third
  element is \<open>min(batch_size, n - batch_start) < batch_size\<close>: the flag is set exactly when
  what is left of the pass is less than a full batch.
\<close>

theorem epoch_done_flag:
  assumes "Dataset_get_next_batch s batch_size True r p = (Inr b, s')"
  shows "tuple_index2 b = Inr (min batch_size (n s - batch_start s) < batch_size)"
  using assms
  by (auto simp: Dataset_get_next_batch_def Let_def split: if_splits sum.splits)

theorem epoch_done_flag_witness:
  "Dataset_get_next_batch three_examples_at2 2 True True [2, 1, 0]
     = (Inr (Tuple3 [12, 11] [2, 1] True),
        \<lparr>xs = [10, 11, 12], n = 3, ys = [0, 1, 2], batch_start = 1, cur_order = [2, 1, 0]\<rparr>)
   \<and> tuple_index2 (Tuple3 [12, 11] [2, 1] True :: (nat, nat) batch)
       = Inr (min 2 (n three_examples_at2 - batch_start three_examples_at2) < 2)"
proof -
  have call: "Dataset_get_next_batch three_examples_at2 2 True True [2, 1, 0]
     = (Inr (Tuple3 [12, 11] [2, 1] True),
        \<lparr>xs = [10, 11, 12], n = 3, ys = [0, 1, 2], batch_start = 1, cur_order = [2, 1, 0]\<rparr>)"
    by code_simp
  from epoch_done_flag [OF call] call show ?thesis by simp
qed

subsection \<open>The end of a bounded pass\<close>

text \<open>
  C7, as the code has it.  Without \<open>multiple_passes\<close> and with \<open>batch_size \<le> n\<close>, the call
  fails with the error of the completed pass exactly when
  \<open>min(batch_size, n - batch_start) \<le> 0\<close>: when the position has reached \<open>n\<close>, and also
  when \<open>batch_size\<close> is zero or negative.  The object is then left as it was.
\<close>

theorem bounded_exhausted_iff:
  assumes "batch_size \<le> n s"
  shows "(fst (Dataset_get_next_batch s batch_size False r p) = Inl ExhaustedError)
           = (n s \<le> batch_start s \<or> batch_size \<le> 0)
       \<and> (n s \<le> batch_start s \<or> batch_size \<le> 0 \<longrightarrow>
            Dataset_get_next_batch s batch_size False r p = (Inl ExhaustedError, s))"
  using assms
  by (auto simp: Dataset_get_next_batch_def Let_def np_take_def split: sum.splits)

theorem bounded_exhausted_iff_witness:
  "2 \<le> n (three_examples\<lparr>batch_start := 3\<rparr>)
   \<and> n (three_examples\<lparr>batch_start := 3\<rparr>) \<le> batch_start (three_examples\<lparr>batch_start := 3\<rparr>)
   \<and> Dataset_get_next_batch (three_examples\<lparr>batch_start := 3\<rparr>) 2 False True []
       = (Inl ExhaustedError, three_examples\<lparr>batch_start := 3\<rparr>)"
proof -
  have h: "2 \<le> n (three_examples\<lparr>batch_start := 3\<rparr>)"
    by (simp add: three_examples_def Dataset_init_def)
  have c: "n (three_examples\<lparr>batch_start := 3\<rparr>) \<le> batch_start (three_examples\<lparr>batch_start := 3\<rparr>)"
    by (simp add: three_examples_def Dataset_init_def)
  from bounded_exhausted_iff [OF h, of True "[]"] h c show ?thesis
    by blast
qed

text \<open>
  The claim as written fails for a batch of size zero: the sampler is fresh, the position
  is \<open>0\<close> of \<open>3\<close>, and the call still raises the error of the completed pass.
\<close>

theorem bounded_exhausted_at_zero_size:
  "(0::int) \<le> n three_examples
   \<and> fst (Dataset_get_next_batch three_examples 0 False True []) = Inl ExhaustedError
   \<and> batch_start three_examples < n three_examples"
  by code_simp

subsection \<open>The wrapper in bounded mode\<close>

text \<open>
  C5, as the code has it.  Without \<open>multiple_passes\<close> the wrapper never returns a batch.
  When the call of the raw \<open>Dataset\<close> returns (a pair), reading element 2 raises
  \<open>IndexError\<close>; when that call raises, its error is what the wrapper raises.
\<close>

theorem augmented_bounded_never_returns:
  "fst (AugmentedDataset_get_next_batch run g a batch_size False r p) =
     (case fst (Dataset_get_next_batch (raw_datasubset a) batch_size False r p) of
        Inl e \<Rightarrow> Inl e
      | Inr b \<Rightarrow> Inl IndexError)"
  by (auto simp: AugmentedDataset_get_next_batch_def Dataset_get_next_batch_def Let_def
           split: sum.splits prod.splits)

text \<open>
  The claim as written fails when the raw call raises: with four examples asked of three,
  the wrapper raises the \<open>ValueError\<close> of the size check, not \<open>IndexError\<close>.
\<close>

theorem augmented_bounded_value_error:
  "fst (AugmentedDataset_get_next_batch counting_run 0
          (fst (AugmentedDataset_init counting_run 0 three_examples False)) 4 False True [])
     = Inl InvalidArgument
   \<and> InvalidArgument \<noteq> IndexError"
  by code_simp

subsection \<open>The cache of the wrapper\<close>

text \<open>
  C9.  Built with \<open>to_cache\<close> over a raw set whose \<open>n\<close> counts its images, and with a
  transform that applies \<open>T\<close> to every image, the wrapper stores at construction the images
  \<open>T(x)\<close> in the order of the raw images, the same count and the raw labels.
\<close>

theorem augmentation_cache_contents:
  assumes "n raw = int (length (xs raw))"
  shows "AugmentedDataset_init (pure_run T) g raw True =
           (\<lparr>raw_datasubset = raw, cached_xs = Some (map T (xs raw)),
             cached_n = Some (n raw), cached_ys = Some (ys raw)\<rparr>, g)
       \<and> (\<forall>i < length (xs raw). map T (xs raw) ! i = T (xs raw ! i))"
  using assms by (simp add: AugmentedDataset_init_def pure_run_def)

theorem augmentation_cache_contents_witness:
  "n three_examples = int (length (xs three_examples))
   \<and> AugmentedDataset_init (pure_run Suc) (0::nat) three_examples True =
       (\<lparr>raw_datasubset = three_examples, cached_xs = Some [11, 12, 13],
         cached_n = Some 3, cached_ys = Some [0, 1, 2]\<rparr>, 0)"
proof -
  have h: "n three_examples = int (length (xs three_examples))"
    by (simp add: three_examples_def Dataset_init_def)
  from augmentation_cache_contents [OF h, of Suc "0::nat"] h show ?thesis
    by (simp add: three_examples_def Dataset_init_def)
qed

subsection \<open>The invariant of the sampler\<close>

text \<open>
  C10, as the code has it.  The invariant (the order is a permutation of the indices and
  the position lies between \<open>0\<close> and \<open>n\<close>) holds after construction and after every call
  without \<open>multiple_passes\<close>, and after every call with \<open>multiple_passes\<close> whose
  \<open>batch_size\<close> is not negative, whether the call returns or raises; the permutation drawn
  is a permutation of the indices.
\<close>

theorem sampler_inv_preserved:
  "(perm_of (int (length X)) p0 \<longrightarrow> sampler_inv (Dataset_init X Y p0))
   \<and> (sampler_inv s \<and> perm_of (n s) p \<and> (multiple_passes \<longrightarrow> 0 \<le> batch_size) \<longrightarrow>
        sampler_inv (snd (Dataset_get_next_batch s batch_size multiple_passes r p)))"
proof (intro conjI impI)
  assume "perm_of (int (length X)) p0"
  then show "sampler_inv (Dataset_init X Y p0)"
    by (simp add: sampler_inv_def Dataset_init_def)
next
  assume a: "sampler_inv s \<and> perm_of (n s) p \<and> (multiple_passes \<longrightarrow> 0 \<le> batch_size)"
  then have n0: "0 \<le> n s" by (simp add: sampler_inv_def perm_of_def)
  show "sampler_inv (snd (Dataset_get_next_batch s batch_size multiple_passes r p))"
  proof (cases multiple_passes)
    case False
    with a show ?thesis
      by (auto simp: Dataset_get_next_batch_def Let_def sampler_inv_def split: sum.splits)
  next
    case True
    with a n0 show ?thesis
      by (auto simp: Dataset_get_next_batch_def Let_def sampler_inv_def split: sum.splits)
  qed
qed

theorem sampler_inv_preserved_witness:
  "perm_of (int (length [10, 11, 12 :: nat])) [0, 2, 1]
   \<and> sampler_inv (Dataset_init [10, 11, 12 :: nat] [0, 1, 2 :: nat] [0, 2, 1])
   \<and> sampler_inv three_examples_at2
   \<and> perm_of (n three_examples_at2) [2, 1, 0]
   \<and> (0::int) \<le> 2
   \<and> sampler_inv (snd (Dataset_get_next_batch three_examples_at2 2 True True [2, 1, 0]))"
proof -
  have h1: "perm_of (int (length [10, 11, 12 :: nat])) [0, 2, 1]"
    by code_simp
  have h3: "perm_of (n three_examples_at2) [2, 1, 0]"
    by code_simp
  from sampler_inv_preserved [of "[10, 11, 12 :: nat]" "[0, 2, 1]" "[0, 1, 2 :: nat]"
      three_examples_at2 "[2, 1, 0]" True 2 True]
    h1 h3 three_examples_at2_ok(2)
  show ?thesis by simp
qed

text \<open>
  The claim as written fails for a negative batch size with \<open>multiple_passes\<close>: the call
  returns and leaves the position at \<open>-1\<close>.
\<close>

theorem negative_batch_size_breaks_inv:
  "sampler_inv three_examples
   \<and> perm_of (n three_examples) [2, 1, 0]
   \<and> \<not> sampler_inv (snd (Dataset_get_next_batch three_examples (- 1) True True [2, 1, 0]))
   \<and> batch_start (snd (Dataset_get_next_batch three_examples (- 1) True True [2, 1, 0])) = - 1"
  by code_simp

subsection \<open>The batch of a wrapping call\<close>

text \<open>
  C1, as the code has it.  With \<open>multiple_passes\<close>, when fewer than \<open>batch_size\<close> examples
  are left (\<open>n - batch_start < batch_size\<close>), the call first replaces the order (when
  \<open>reshuffle_after_pass\<close> is set) and sets the position to \<open>0\<close>, and only then takes the
  batch: the batch is the first \<open>batch_size\<close> examples of the order after the reset, the new
  permutation or the unchanged order.  It has exactly \<open>batch_size\<close> examples and the flag is
  set.
\<close>

theorem wrap_batch_from_reset_order:
  assumes "example_set_ok s" and "sampler_inv s" and "perm_of (n s) p"
    and "batch_size \<le> n s" and "n s - batch_start s < batch_size"
  shows "fst (Dataset_get_next_batch s batch_size True r p) =
           Inr (Tuple3
                  (map (nth (xs s)) (take (nat batch_size) (if r then p else cur_order s)))
                  (map (nth (ys s)) (take (nat batch_size) (if r then p else cur_order s)))
                  True)
       \<and> int (length (take (nat batch_size) (if r then p else cur_order s))) = batch_size"
proof -
  have st: "0 \<le> batch_start s" "batch_start s \<le> n s"
    using assms(2) by (simp_all add: sampler_inv_def)
  then have pos: "0 \<le> batch_size" using assms(5) by simp
  have len: "int (length (if r then p else cur_order s)) = n s"
    using assms(2,3) by (simp add: sampler_inv_def perm_of_length)
  have pp: "n s - batch_start s < batch_size \<and> r \<longrightarrow> perm_of (n s) p"
    using assms(3) by simp
  have "int (length (take (nat batch_size) (if r then p else cur_order s))) = batch_size"
    using len pos assms(4) by simp
  then show ?thesis
    using unbounded_step [OF assms(1,2) pp pos assms(4)] assms(5)
    by simp
qed

theorem wrap_batch_from_reset_order_witness:
  "example_set_ok three_examples_at2 \<and> sampler_inv three_examples_at2
   \<and> perm_of (n three_examples_at2) [2, 1, 0]
   \<and> 2 \<le> n three_examples_at2
   \<and> n three_examples_at2 - batch_start three_examples_at2 < 2
   \<and> fst (Dataset_get_next_batch three_examples_at2 2 True True [2, 1, 0])
       = Inr (Tuple3 [12, 11] [2, 1] True)"
proof -
  have f: "n three_examples_at2 = 3" "batch_start three_examples_at2 = 2"
    "xs three_examples_at2 = [10, 11, 12]" "ys three_examples_at2 = [0, 1, 2]"
    by (simp_all add: three_examples_at2_def three_examples_def Dataset_init_def)
  have h3: "perm_of (n three_examples_at2) [2, 1, 0]"
    by (simp only: f perm_of_3_rev)
  have h4: "2 \<le> n three_examples_at2" by (simp add: f)
  have h5: "n three_examples_at2 - batch_start three_examples_at2 < 2" by (simp add: f)
  from wrap_batch_from_reset_order [OF three_examples_at2_ok h3 h4 h5, of True]
  have "fst (Dataset_get_next_batch three_examples_at2 2 True True [2, 1, 0])
       = Inr (Tuple3 [12, 11] [2, 1] True)"
    by (simp add: f)
  with three_examples_at2_ok h3 h4 h5 show ?thesis by simp
qed

text \<open>
  The claim as written fails: at position \<open>2\<close> of \<open>3\<close> with \<open>batch_size = 2\<close>, the window
  of the old order from the old position holds the single example \<open>11\<close>, and the call
  returns the examples \<open>12, 11\<close> at the head of the new permutation (and the head of the
  old order, \<open>10, 12\<close>, without reshuffling).
\<close>

theorem wrap_batch_not_from_old_window:
  "n three_examples_at2 - batch_start three_examples_at2 < 2
   \<and> fst (Dataset_get_next_batch three_examples_at2 2 True True [2, 1, 0])
       = Inr (Tuple3 [12, 11] [2, 1] True)
   \<and> map (nth (xs three_examples_at2))
        (py_slice (cur_order three_examples_at2) (batch_start three_examples_at2)
           (batch_start three_examples_at2 + 2)) = [11]
   \<and> fst (Dataset_get_next_batch three_examples_at2 2 True False [2, 1, 0])
       = Inr (Tuple3 [10, 12] [0, 2] True)"
  by code_simp

subsection \<open>The position after a call with several passes\<close>

text \<open>
  C2, as the code has it by design.  With \<open>multiple_passes\<close>, a call that returns a batch
  and does not wrap leaves the order as it was and the position at the old position plus
  \<open>batch_size\<close>.  A call that wraps returns the flag set and leaves the order after the
  reset in place, the permutation drawn when \<open>reshuffle_after_pass\<close> is set; the position
  is set to \<open>0\<close> before the batch is taken, and where the call then leaves it is not stated
  here.  With ten examples and batches of four, reshuffling, the third call starts from
  position \<open>8\<close>, returns the first four examples of the permutation drawn with the flag
  set, and installs that permutation.
\<close>

theorem unbounded_cursor_after:
  "(Dataset_get_next_batch s batch_size True r p = (Inr b, s')
      \<and> \<not> min batch_size (n s - batch_start s) < batch_size \<longrightarrow>
      batch_start s' = batch_start s + batch_size \<and> cur_order s' = cur_order s)
   \<and> (Dataset_get_next_batch s batch_size True r p = (Inr b, s')
      \<and> min batch_size (n s - batch_start s) < batch_size \<longrightarrow>
      tuple_index2 b = Inr True \<and> cur_order s' = (if r then p else cur_order s))
   \<and> (length X = 10 \<and> length Y = 10 \<and> perm_of 10 p0 \<and> perm_of 10 p3 \<longrightarrow>
        batch_start
          (snd (Dataset_get_next_batch
                  (snd (Dataset_get_next_batch (Dataset_init X Y p0) 4 True True p1))
                  4 True True p2)) = 8
      \<and> fst (Dataset_get_next_batch
          (snd (Dataset_get_next_batch
                  (snd (Dataset_get_next_batch (Dataset_init X Y p0) 4 True True p1))
                  4 True True p2))
          4 True True p3)
        = Inr (Tuple3 (map (nth X) (take 4 p3)) (map (nth Y) (take 4 p3)) True)
      \<and> cur_order (snd (Dataset_get_next_batch
          (snd (Dataset_get_next_batch
                  (snd (Dataset_get_next_batch (Dataset_init X Y p0) 4 True True p1))
                  4 True True p2))
          4 True True p3)) = p3)"
proof (intro conjI impI)
  assume "Dataset_get_next_batch s batch_size True r p = (Inr b, s')
      \<and> \<not> min batch_size (n s - batch_start s) < batch_size"
  then show "batch_start s' = batch_start s + batch_size" and "cur_order s' = cur_order s"
    by (auto simp: Dataset_get_next_batch_def Let_def split: if_splits sum.splits)
next
  assume "Dataset_get_next_batch s batch_size True r p = (Inr b, s')
      \<and> min batch_size (n s - batch_start s) < batch_size"
  then show "tuple_index2 b = Inr True" and "cur_order s' = (if r then p else cur_order s)"
    by (auto simp: Dataset_get_next_batch_def Let_def split: if_splits sum.splits)
next
  assume a: "length X = 10 \<and> length Y = 10 \<and> perm_of 10 p0 \<and> perm_of 10 p3"
  define s0 where "s0 = Dataset_init X Y p0"
  define s4 where "s4 = s0\<lparr>batch_start := 4\<rparr>"
  define s8 where "s8 = s0\<lparr>batch_start := 8\<rparr>"
  have ok0: "example_set_ok s0" and inv0: "sampler_inv s0"
    using a init_ok [of Y X p0] by (simp_all add: s0_def)
  have f0: "n s0 = 10" "batch_start s0 = 0" "xs s0 = X" "ys s0 = Y" "cur_order s0 = p0"
    using a by (simp_all add: s0_def Dataset_init_def)
  have c1: "snd (Dataset_get_next_batch s0 4 True True p1) = s4"
    using unbounded_no_wrap [OF ok0 inv0, of 4 True p1] by (simp add: f0 s4_def)
  have ok4: "example_set_ok s4" and inv4: "sampler_inv s4"
    using ok0 inv0 by (simp_all add: s4_def example_set_ok_def sampler_inv_def f0)
  have c2: "snd (Dataset_get_next_batch s4 4 True True p2) = s8"
    using unbounded_no_wrap [OF ok4 inv4, of 4 True p2] by (simp add: f0 s4_def s8_def)
  have ok8: "example_set_ok s8" and inv8: "sampler_inv s8"
    using ok0 inv0 by (simp_all add: s8_def example_set_ok_def sampler_inv_def f0)
  have pp: "n s8 - batch_start s8 < 4 \<and> True \<longrightarrow> perm_of (n s8) p3"
    using a by (simp add: s8_def f0)
  have two: "snd (Dataset_get_next_batch
                  (snd (Dataset_get_next_batch (Dataset_init X Y p0) 4 True True p1))
                  4 True True p2) = s8"
    using c1 c2 by (simp add: s0_def)
  have c3: "Dataset_get_next_batch s8 4 True True p3
        = (Inr (Tuple3 (map (nth X) (take 4 p3)) (map (nth Y) (take 4 p3)) True),
           \<lparr>xs = X, n = 10, ys = Y, batch_start = 2, cur_order = p3\<rparr>)"
    using unbounded_step [OF ok8 inv8 pp]
    by (simp add: s8_def f0)
  show "batch_start
          (snd (Dataset_get_next_batch
                  (snd (Dataset_get_next_batch (Dataset_init X Y p0) 4 True True p1))
                  4 True True p2)) = 8"
    unfolding two by (simp add: s8_def)
  show "fst (Dataset_get_next_batch
          (snd (Dataset_get_next_batch
                  (snd (Dataset_get_next_batch (Dataset_init X Y p0) 4 True True p1))
                  4 True True p2))
          4 True True p3)
        = Inr (Tuple3 (map (nth X) (take 4 p3)) (map (nth Y) (take 4 p3)) True)"
    unfolding two by (simp add: c3)
  show "cur_order (snd (Dataset_get_next_batch
          (snd (Dataset_get_next_batch
                  (snd (Dataset_get_next_batch (Dataset_init X Y p0) 4 True True p1))
                  4 True True p2))
          4 True True p3)) = p3"
    unfolding two by (simp add: c3)
qed

theorem unbounded_cursor_after_witness:
  "Dataset_get_next_batch ten_examples 4 True True []
     = (Inr (Tuple3 [103, 101, 104, 100] [3, 1, 4, 0] False), ten_examples\<lparr>batch_start := 4\<rparr>)
   \<and> \<not> min 4 (n ten_examples - batch_start ten_examples) < 4
   \<and> batch_start (ten_examples\<lparr>batch_start := 4\<rparr>) = batch_start ten_examples + 4
   \<and> Dataset_get_next_batch three_examples_at2 2 True True [2, 1, 0]
       = (Inr (Tuple3 [12, 11] [2, 1] True),
          \<lparr>xs = [10, 11, 12], n = 3, ys = [0, 1, 2], batch_start = 1, cur_order = [2, 1, 0]\<rparr>)
   \<and> min 2 (n three_examples_at2 - batch_start three_examples_at2) < 2
   \<and> cur_order
        \<lparr>xs = [10, 11, 12 :: nat], n = 3, ys = [0, 1, 2 :: nat], batch_start = 1,
         cur_order = [2, 1, 0]\<rparr> = [2, 1, 0]
   \<and> length [100, 101, 102, 103, 104, 105, 106, 107, 108, 109 :: nat] = 10
   \<and> length [0, 1, 2, 3, 4, 5, 6, 7, 8, 9 :: nat] = 10
   \<and> perm_of 10 [3, 1, 4, 0, 5, 9, 2, 6, 8, 7]
   \<and> perm_of 10 [9, 8, 7, 6, 5, 4, 3, 2, 1, 0]
   \<and> fst (Dataset_get_next_batch
        (snd (Dataset_get_next_batch
                (snd (Dataset_get_next_batch
                        (Dataset_init [100, 101, 102, 103, 104, 105, 106, 107, 108, 109 :: nat]
                           [0, 1, 2, 3, 4, 5, 6, 7, 8, 9 :: nat] [3, 1, 4, 0, 5, 9, 2, 6, 8, 7])
                        4 True True []))
                4 True True []))
        4 True True [9, 8, 7, 6, 5, 4, 3, 2, 1, 0])
       = Inr (Tuple3
                 (map (nth [100, 101, 102, 103, 104, 105, 106, 107, 108, 109])
                    (take 4 [9, 8, 7, 6, 5, 4, 3, 2, 1, 0]))
                 (map (nth [0, 1, 2, 3, 4, 5, 6, 7, 8, 9]) (take 4 [9, 8, 7, 6, 5, 4, 3, 2, 1, 0]))
                 True)"
proof -
  have call1: "Dataset_get_next_batch ten_examples 4 True True []
     = (Inr (Tuple3 [103, 101, 104, 100] [3, 1, 4, 0] False), ten_examples\<lparr>batch_start := 4\<rparr>)"
    by code_simp
  have nowrap: "\<not> min 4 (n ten_examples - batch_start ten_examples) < 4"
    by code_simp
  have call2: "Dataset_get_next_batch three_examples_at2 2 True True [2, 1, 0]
     = (Inr (Tuple3 [12, 11] [2, 1] True),
        \<lparr>xs = [10, 11, 12], n = 3, ys = [0, 1, 2], batch_start = 1, cur_order = [2, 1, 0]\<rparr>)"
    by code_simp
  have wrap: "min 2 (n three_examples_at2 - batch_start three_examples_at2) < 2"
    by code_simp
  have l1: "length [100, 101, 102, 103, 104, 105, 106, 107, 108, 109 :: nat] = 10"
    by simp
  have l2: "length [0, 1, 2, 3, 4, 5, 6, 7, 8, 9 :: nat] = 10"
    by simp
  have p0: "perm_of 10 [3, 1, 4, 0, 5, 9, 2, 6, 8, 7]"
    by code_simp
  have p3: "perm_of 10 [9, 8, 7, 6, 5, 4, 3, 2, 1, 0]"
    by code_simp
  from unbounded_cursor_after
    [where s = ten_examples and batch_size = 4 and r = True and p = "[]"
       and b = "Tuple3 [103, 101, 104, 100] [3, 1, 4, 0] False"
       and s' = "ten_examples\<lparr>batch_start := 4\<rparr>"] call1 nowrap
  have a: "batch_start (ten_examples\<lparr>batch_start := 4\<rparr>) = batch_start ten_examples + 4"
    by blast
  from unbounded_cursor_after
    [where s = three_examples_at2 and batch_size = 2 and r = True and p = "[2, 1, 0]"
       and b = "Tuple3 [12, 11] [2, 1] True"
       and s' = "\<lparr>xs = [10, 11, 12], n = 3, ys = [0, 1, 2], batch_start = 1,
                   cur_order = [2, 1, 0]\<rparr>"] call2 wrap
  have b: "cur_order
        \<lparr>xs = [10, 11, 12 :: nat], n = 3, ys = [0, 1, 2 :: nat], batch_start = 1,
         cur_order = [2, 1, 0]\<rparr> = [2, 1, 0]"
    by simp
  from unbounded_cursor_after
    [where X = "[100, 101, 102, 103, 104, 105, 106, 107, 108, 109 :: nat]"
       and Y = "[0, 1, 2, 3, 4, 5, 6, 7, 8, 9 :: nat]"
       and ?p0.0 = "[3, 1, 4, 0, 5, 9, 2, 6, 8, 7]"
       and ?p3.0 = "[9, 8, 7, 6, 5, 4, 3, 2, 1, 0]"
       and ?p1.0 = "[]" and ?p2.0 = "[]"] l1 l2 p0 p3
  have c: "fst (Dataset_get_next_batch
        (snd (Dataset_get_next_batch
                (snd (Dataset_get_next_batch
                        (Dataset_init [100, 101, 102, 103, 104, 105, 106, 107, 108, 109 :: nat]
                           [0, 1, 2, 3, 4, 5, 6, 7, 8, 9 :: nat] [3, 1, 4, 0, 5, 9, 2, 6, 8, 7])
                        4 True True []))
                4 True True []))
        4 True True [9, 8, 7, 6, 5, 4, 3, 2, 1, 0])
       = Inr (Tuple3
                 (map (nth [100, 101, 102, 103, 104, 105, 106, 107, 108, 109])
                    (take 4 [9, 8, 7, 6, 5, 4, 3, 2, 1, 0]))
                 (map (nth [0, 1, 2, 3, 4, 5, 6, 7, 8, 9]) (take 4 [9, 8, 7, 6, 5, 4, 3, 2, 1, 0]))
                 True)"
    by blast
  from call1 nowrap a call2 wrap b l1 l2 p0 p3 c show ?thesis
    by blast
qed

text \<open>
  The claim as written fails in its own scenario: two calls bring the fresh sampler of ten
  examples to position \<open>8\<close>, and the third call, which wraps and returns the flag set,
  does not leave the position at \<open>0\<close>.
\<close>

theorem third_call_cursor_not_zero:
  "snd (Dataset_get_next_batch (snd (Dataset_get_next_batch ten_examples 4 True True [])) 4
          True True []) = ten_examples_at8
   \<and> fst (Dataset_get_next_batch ten_examples_at8 4 True True [9, 8, 7, 6, 5, 4, 3, 2, 1, 0])
       = Inr (Tuple3 [109, 108, 107, 106] [9, 8, 7, 6] True)
   \<and> batch_start (snd (Dataset_get_next_batch ten_examples_at8 4 True True
                         [9, 8, 7, 6, 5, 4, 3, 2, 1, 0])) \<noteq> 0"
  by code_simp

text \<open>
  Where the wrapping call leaves the position is not what the other paths do with it:
  they advance it by the number of examples served, and the wrapping call advances it by
  the number that was left before the reset.  The next call therefore serves again part
  of the batch just served: here the labels \<open>9, 8, 7, 6\<close> and then \<open>7, 6, 5, 4\<close>.
\<close>

lemma batch_after_wrap_overlaps:
  "fst (Dataset_get_next_batch ten_examples_at8 4 True True [9, 8, 7, 6, 5, 4, 3, 2, 1, 0])
     = Inr (Tuple3 [109, 108, 107, 106] [9, 8, 7, 6] True)
   \<and> fst (Dataset_get_next_batch
            (snd (Dataset_get_next_batch ten_examples_at8 4 True True
                    [9, 8, 7, 6, 5, 4, 3, 2, 1, 0])) 4 True True [])
     = Inr (Tuple3 [107, 106, 105, 104] [7, 6, 5, 4] False)"
  by code_simp

subsection \<open>One bounded pass over the whole set\<close>

text \<open>
  C3, as the code has it.  For a set of \<open>N \<ge> 1\<close> examples with as many labels, a fresh
  sampler whose order \<open>p\<close> is a permutation of the indices, and \<open>1 \<le> batch_size \<le> N\<close>,
  the calls of one bounded pass end with the error of the completed pass, and the batches
  returned, one after the other, are the examples and labels at the indices \<open>p\<close>: every
  example exactly once.  Every batch before the last has \<open>batch_size\<close> examples, and the
  last has \<open>N mod batch_size\<close>, or \<open>batch_size\<close> when that is \<open>0\<close>.
\<close>

theorem bounded_pass_partition:
  assumes "1 \<le> length X" and "length Y = length X" and "perm_of (int (length X)) p"
    and "1 \<le> batch_size" and "batch_size \<le> int (length X)"
  shows "\<exists>bl s'. bounded_pass (Dataset_init X Y p) batch_size = (bl, ExhaustedError, s')
           \<and> concat (map batch_xs bl) = map (nth X) p
           \<and> concat (map batch_ys bl) = map (nth Y) p
           \<and> mset (concat (map batch_xs bl)) = mset X
           \<and> mset (concat (map batch_ys bl)) = mset Y
           \<and> (\<forall>b \<in> set (butlast bl). int (length (batch_xs b)) = batch_size
                                        \<and> int (length (batch_ys b)) = batch_size)
           \<and> bl \<noteq> []
           \<and> int (length (batch_xs (last bl))) =
                (if int (length X) mod batch_size = 0 then batch_size
                 else int (length X) mod batch_size)
           \<and> length (batch_ys (last bl)) = length (batch_xs (last bl))"
proof -
  define s where "s = Dataset_init X Y p"
  obtain bl e s' where run: "bounded_pass s batch_size = (bl, e, s')"
    by (cases "bounded_pass s batch_size") auto
  have f: "xs s = X" "ys s = Y" "n s = int (length X)" "batch_start s = 0" "cur_order s = p"
    by (simp_all add: s_def Dataset_init_def)
  have ok: "example_set_ok s" and inv: "sampler_inv s"
    using init_ok [OF assms(2,3)] by (simp_all add: s_def)
  have le: "batch_size \<le> n s" using assms(5) by (simp add: f)
  note facts = bounded_pass_from [OF ok inv assms(4) le run]
  have e: "e = ExhaustedError" using facts by blast
  have cx: "concat (map batch_xs bl) = map (nth X) p"
    using facts by (simp add: f)
  have cy: "concat (map batch_ys bl) = map (nth Y) p"
    using facts by (simp add: f)
  have mx: "mset (concat (map batch_xs bl)) = mset X"
    unfolding cx using assms(3) by (rule perm_of_mset)
  have my: "mset (concat (map batch_ys bl)) = mset Y"
    unfolding cy using assms(2,3) perm_of_mset [of Y p] by simp
  have sz: "\<forall>b \<in> set (butlast bl). int (length (batch_xs b)) = batch_size
                                        \<and> int (length (batch_ys b)) = batch_size"
    using facts by blast
  have ne: "bl \<noteq> []"
    using facts assms(1) by (auto simp: f)
  have lst: "int (length (batch_xs (last bl))) =
                (if int (length X) mod batch_size = 0 then batch_size
                 else int (length X) mod batch_size)
           \<and> length (batch_ys (last bl)) = length (batch_xs (last bl))"
    using facts ne by (simp add: f)
  show ?thesis
    using run e cx cy mx my sz ne lst unfolding s_def by blast
qed

theorem bounded_pass_partition_witness:
  "1 \<le> length [10, 11, 12 :: nat]
   \<and> length [0, 1, 2 :: nat] = length [10, 11, 12 :: nat]
   \<and> perm_of (int (length [10, 11, 12 :: nat])) [0, 2, 1]
   \<and> (1::int) \<le> 2 \<and> 2 \<le> int (length [10, 11, 12 :: nat])
   \<and> bounded_pass three_examples 2
       = ([Tuple2 [10, 12] [0, 2], Tuple2 [11] [1]], ExhaustedError,
          three_examples\<lparr>batch_start := 3\<rparr>)
   \<and> (\<exists>bl s'. bounded_pass (Dataset_init [10, 11, 12 :: nat] [0, 1, 2 :: nat] [0, 2, 1]) 2
                  = (bl, ExhaustedError, s')
           \<and> concat (map batch_xs bl) = map (nth [10, 11, 12]) [0, 2, 1]
           \<and> mset (concat (map batch_xs bl)) = mset [10, 11, 12]
           \<and> bl \<noteq> []
           \<and> int (length (batch_xs (last bl))) =
                (if int (length [10, 11, 12 :: nat]) mod 2 = 0 then 2
                 else int (length [10, 11, 12 :: nat]) mod 2))"
proof -
  have h1: "1 \<le> length [10, 11, 12 :: nat]" by simp
  have h2: "length [0, 1, 2 :: nat] = length [10, 11, 12 :: nat]" by simp
  have h3: "perm_of (int (length [10, 11, 12 :: nat])) [0, 2, 1]" by code_simp
  have h4: "(1::int) \<le> 2" by simp
  have h5: "2 \<le> int (length [10, 11, 12 :: nat])" by simp
  have ev: "bounded_pass three_examples 2
       = ([Tuple2 [10, 12] [0, 2], Tuple2 [11] [1]], ExhaustedError,
          three_examples\<lparr>batch_start := 3\<rparr>)"
    by code_simp
  from bounded_pass_partition [OF h1 h2 h3 h4 h5]
  have "\<exists>bl s'. bounded_pass (Dataset_init [10, 11, 12 :: nat] [0, 1, 2 :: nat] [0, 2, 1]) 2
                  = (bl, ExhaustedError, s')
           \<and> concat (map batch_xs bl) = map (nth [10, 11, 12]) [0, 2, 1]
           \<and> mset (concat (map batch_xs bl)) = mset [10, 11, 12]
           \<and> bl \<noteq> []
           \<and> int (length (batch_xs (last bl))) =
                (if int (length [10, 11, 12 :: nat]) mod 2 = 0 then 2
                 else int (length [10, 11, 12 :: nat]) mod 2)"
    by blast
  with h1 h2 h3 h4 h5 ev show ?thesis by blast
qed

text \<open>
  The claim as written fails for \<open>batch_size = 0\<close>, which is at most \<open>N\<close>: the first call
  already raises the error of the completed pass, and the pass returns no batch at all.
\<close>

theorem bounded_pass_of_size_zero:
  "1 \<le> length (xs three_examples)
   \<and> (0::int) \<le> n three_examples
   \<and> bounded_pass three_examples 0 = ([], ExhaustedError, three_examples)
   \<and> concat (map batch_xs (fst (bounded_pass three_examples 0)))
       \<noteq> map (nth (xs three_examples)) (cur_order three_examples)"
  by code_simp

text \<open>The scenario of the specification: ten examples in batches of three.\<close>

lemma ten_examples_sizes:
  "map (length \<circ> batch_xs) (fst (bounded_pass ten_examples 3)) = [3, 3, 3, 1]"
  by code_simp

subsection \<open>Drawing from a cached wrapper\<close>

text \<open>
  C4, as the code has it.  What \<open>AugmentedDataset.get_next_batch\<close> returns, and the state
  in which it leaves the session, do not depend on the cached fields: with or without
  cache the batch is drawn from the raw \<open>Dataset\<close>, and the session is run on the raw
  images of that batch at every draw.
\<close>

theorem wrapper_ignores_cache:
  "fst (AugmentedDataset_get_next_batch run g
          (a\<lparr>cached_xs := cx, cached_n := cn, cached_ys := cy\<rparr>) batch_size mp r p)
     = fst (AugmentedDataset_get_next_batch run g a batch_size mp r p)
   \<and> snd (snd (AugmentedDataset_get_next_batch run g
          (a\<lparr>cached_xs := cx, cached_n := cn, cached_ys := cy\<rparr>) batch_size mp r p))
     = snd (snd (AugmentedDataset_get_next_batch run g a batch_size mp r p))
   \<and> (Dataset_get_next_batch (raw_datasubset a) batch_size True r p = (Inr b, raw') \<longrightarrow>
        AugmentedDataset_get_next_batch run g a batch_size True r p
          = (Inr (Tuple3 (fst (run g (batch_xs b))) (batch_ys b)
                    (min batch_size (n (raw_datasubset a) - batch_start (raw_datasubset a))
                       < batch_size)),
             a\<lparr>raw_datasubset := raw'\<rparr>, snd (run g (batch_xs b))))"
proof (intro conjI impI)
  show "fst (AugmentedDataset_get_next_batch run g
          (a\<lparr>cached_xs := cx, cached_n := cn, cached_ys := cy\<rparr>) batch_size mp r p)
     = fst (AugmentedDataset_get_next_batch run g a batch_size mp r p)"
    by (simp add: AugmentedDataset_get_next_batch_def split: prod.splits sum.splits)
  show "snd (snd (AugmentedDataset_get_next_batch run g
          (a\<lparr>cached_xs := cx, cached_n := cn, cached_ys := cy\<rparr>) batch_size mp r p))
     = snd (snd (AugmentedDataset_get_next_batch run g a batch_size mp r p))"
    by (simp add: AugmentedDataset_get_next_batch_def split: prod.splits sum.splits)
next
  assume call: "Dataset_get_next_batch (raw_datasubset a) batch_size True r p = (Inr b, raw')"
  have flag: "tuple_index2 b
      = Inr (min batch_size (n (raw_datasubset a) - batch_start (raw_datasubset a)) < batch_size)"
    using call by (rule unbounded_result_flag)
  show "AugmentedDataset_get_next_batch run g a batch_size True r p
          = (Inr (Tuple3 (fst (run g (batch_xs b))) (batch_ys b)
                    (min batch_size (n (raw_datasubset a) - batch_start (raw_datasubset a))
                       < batch_size)),
             a\<lparr>raw_datasubset := raw'\<rparr>, snd (run g (batch_xs b)))"
    by (simp add: AugmentedDataset_get_next_batch_def call flag split: prod.splits)
qed

theorem wrapper_ignores_cache_witness:
  "Dataset_get_next_batch (raw_datasubset cached_three) 2 True True []
     = (Inr (Tuple3 [10, 12] [0, 2] False), three_examples_at2)
   \<and> AugmentedDataset_get_next_batch counting_run 2 cached_three 2 True True []
       = (Inr (Tuple3 [12, 14] [0, 2] False),
          cached_three\<lparr>raw_datasubset := three_examples_at2\<rparr>, 3)"
proof -
  have call: "Dataset_get_next_batch (raw_datasubset cached_three) 2 True True []
     = (Inr (Tuple3 [10, 12] [0, 2] False), three_examples_at2)"
    by code_simp
  have ev: "fst (counting_run 2 [10, 12]) = [12, 14]" "snd (counting_run 2 [10, 12]) = 3"
    "(min 2 (n (raw_datasubset cached_three) - batch_start (raw_datasubset cached_three)) < 2)
       = False"
    by code_simp+
  from wrapper_ignores_cache [where run = counting_run and g = 2 and a = cached_three
      and batch_size = 2 and r = True and p = "[]"
      and b = "Tuple3 [10, 12] [0, 2] False" and raw' = three_examples_at2] call
  have "AugmentedDataset_get_next_batch counting_run 2 cached_three 2 True True []
       = (Inr (Tuple3
                 (fst (counting_run 2 (batch_xs (Tuple3 [10, 12] [0, 2] False :: (nat, nat) batch))))
                 (batch_ys (Tuple3 [10, 12] [0, 2] False :: (nat, nat) batch))
                 (min 2 (n (raw_datasubset cached_three)
                           - batch_start (raw_datasubset cached_three)) < 2)),
          cached_three\<lparr>raw_datasubset := three_examples_at2\<rparr>,
          snd (counting_run 2 (batch_xs (Tuple3 [10, 12] [0, 2] False :: (nat, nat) batch))))"
    by blast
  then have "AugmentedDataset_get_next_batch counting_run 2 cached_three 2 True True []
       = (Inr (Tuple3 [12, 14] [0, 2] False),
          cached_three\<lparr>raw_datasubset := three_examples_at2\<rparr>, 3)"
    by (simp only: batch_xs.simps batch_ys.simps ev)
  with call show ?thesis by blast
qed

text \<open>
  The claim as written fails.  The cache of \<open>cached_three\<close> holds the images of the first
  run, \<open>11, 12, 13\<close>; a draw of two examples runs the session again, on the raw images
  \<open>10, 12\<close>, returns \<open>12, 14\<close> and leaves the session one run further, where sampling the
  cached set would return \<open>11, 13\<close>.  With the default \<open>multiple_passes = False\<close> and a
  transform without state, sampling the cached set returns a pair and the wrapper raises.
\<close>

theorem cached_wrapper_redraws_from_raw:
  "cached_xs cached_three = Some [11, 12, 13]
   \<and> fst (AugmentedDataset_get_next_batch counting_run 2 cached_three 2 True True [])
       = Inr (Tuple3 [12, 14] [0, 2] False)
   \<and> snd (snd (AugmentedDataset_get_next_batch counting_run 2 cached_three 2 True True [])) = 3
   \<and> cached_set_sampling cached_three 2 True True []
       = Some (Inr (Tuple3 [11, 13] [0, 2] False))
   \<and> Some (fst (AugmentedDataset_get_next_batch counting_run 2 cached_three 2 True True []))
       \<noteq> cached_set_sampling cached_three 2 True True []
   \<and> fst (AugmentedDataset_get_next_batch (pure_run Suc) ()
            (fst (AugmentedDataset_init (pure_run Suc) () three_examples True)) 2 False True [])
       = Inl IndexError
   \<and> cached_set_sampling (fst (AugmentedDataset_init (pure_run Suc) () three_examples True))
        2 False True []
       = Some (Inr (Tuple2 [11, 13] [0, 2]))"
  by code_simp

end
